theory Spec2Isabelle
  imports Complex_Main "HOL-Library.Char_ord" "HOL-Library.List_Lexorder"
begin

section \<open>The shared camera: one bounded queue between the capture thread and its consumers\<close>

text \<open>
  \<^verbatim>\<open>SharedCamera\<close> of \<^verbatim>\<open>app.py\<close> holds a \<^verbatim>\<open>queue.Queue(maxsize=queue_size)\<close>.
  The record keeps the two parts of the object that the queue operations read: the bound
  and the buffered frames, oldest first. The frame type is a parameter.
\<close>

record 'a SharedCamera =
  maxsize :: int
  frame_queue :: "'a list"

text \<open>
  The operations of \<^verbatim>\<open>queue.Queue\<close> that the class calls. A bound that is not
  positive means an unbounded queue, as in the library. \<^verbatim>\<open>put\<close> on a full queue and
  \<^verbatim>\<open>get\<close> on an empty one block the caller; a blocked call is the value \<open>None\<close>.
\<close>

definition full :: "'a SharedCamera \<Rightarrow> bool" where
  "full c = (0 < maxsize c \<and> maxsize c \<le> int (length (frame_queue c)))"

definition empty :: "'a SharedCamera \<Rightarrow> bool" where
  "empty c = (frame_queue c = [])"

definition put :: "'a \<Rightarrow> 'a SharedCamera \<Rightarrow> 'a SharedCamera option" where
  "put x c = (if full c then None else Some (c\<lparr>frame_queue := frame_queue c @ [x]\<rparr>))"

definition get :: "'a SharedCamera \<Rightarrow> ('a \<times> 'a SharedCamera) option" where
  "get c = (case frame_queue c of
              [] \<Rightarrow> None
            | x # xs \<Rightarrow> Some (x, c\<lparr>frame_queue := xs\<rparr>))"

text \<open>\<^verbatim>\<open>SharedCamera.__init__\<close>: an empty queue of the given size; the global instance
  is built with the default \<^verbatim>\<open>queue_size=10\<close>.\<close>

definition SharedCamera_init :: "int \<Rightarrow> 'a SharedCamera" where
  "SharedCamera_init queue_size = \<lparr>maxsize = queue_size, frame_queue = []\<rparr>"

definition camera :: "'a SharedCamera" where
  "camera = SharedCamera_init 10"

text \<open>
  One pass through the body of the loop of \<^verbatim>\<open>SharedCamera.update\<close>, when no other
  thread runs during the pass. The argument is the result of \<^verbatim>\<open>cap.read()\<close>: \<open>None\<close>
  when \<^verbatim>\<open>ret\<close> is false (the pass only sleeps), \<open>Some frame\<close> otherwise.
\<close>

definition update :: "'a option \<Rightarrow> 'a SharedCamera \<Rightarrow> 'a SharedCamera option" where
  "update r c =
     (case r of
        None \<Rightarrow> Some c
      | Some frame \<Rightarrow>
          if \<not> full c then put frame c
          else (case get c of
                  None \<Rightarrow> None
                | Some (_, c') \<Rightarrow> put frame c'))"

text \<open>\<^verbatim>\<open>SharedCamera.get_frame\<close>: the polled frame (or \<open>None\<close> for Python's
  \<^verbatim>\<open>None\<close>) and the camera afterwards.\<close>

definition get_frame :: "'a SharedCamera \<Rightarrow> ('a option \<times> 'a SharedCamera) option" where
  "get_frame c =
     (if \<not> empty c
      then (case get c of None \<Rightarrow> None | Some (x, c') \<Rightarrow> Some (Some x, c'))
      else Some (None, c))"

subsection \<open>Runs of the hub\<close>

text \<open>
  The capture thread and the consumers (the recorder, the detector and every stream
  viewer call \<^verbatim>\<open>camera.get_frame()\<close>) run as threads of one process. Every call of a
  queue method is atomic, the queue holding its own lock, but \<^verbatim>\<open>update\<close> holds no lock
  from one call to the next: polls can take place between its test of \<^verbatim>\<open>full()\<close> and
  the call of \<^verbatim>\<open>get()\<close> or \<^verbatim>\<open>put()\<close> that follows, and between \<^verbatim>\<open>get()\<close> and
  \<^verbatim>\<open>put()\<close>. The position of the capture thread in the loop body is therefore part of
  the state: about to read (line 92), inside \<^verbatim>\<open>get()\<close> with a frame in hand (line 101),
  or inside \<^verbatim>\<open>put(frame)\<close> (line 98 or 102).

  A frame is identified by its place in capture order: the \<open>n\<close>-th frame that
  \<^verbatim>\<open>cap.read()\<close> returns is the number \<open>n\<close>. The state records which consumer received
  which frame.
\<close>

datatype producer = At_read | At_get nat | At_put nat

datatype event = Read bool | Queue_call | Poll nat

record hub =
  cam :: "nat SharedCamera"
  producer :: producer
  captured :: nat
  delivered :: "(nat \<times> nat) list"

definition hub_init :: "int \<Rightarrow> hub" where
  "hub_init queue_size =
     \<lparr>cam = SharedCamera_init queue_size, producer = At_read, captured = 0, delivered = []\<rparr>"

text \<open>
  The events of a run.
  \<^item> \<open>Read ret\<close>: \<^verbatim>\<open>cap.read()\<close> returns \<^verbatim>\<open>ret\<close>; with a frame the thread tests
    \<^verbatim>\<open>full()\<close> (line 97) and goes on to \<^verbatim>\<open>put\<close> or to \<^verbatim>\<open>get\<close>.
  \<^item> \<open>Queue_call\<close>: the queue call the capture thread is in takes effect and returns. A
    call that cannot (\<^verbatim>\<open>get()\<close> on the empty queue, \<^verbatim>\<open>put()\<close> on a full one) blocks:
    the state stays as it is, with the thread inside the call.
  \<^item> \<open>Poll k\<close>: consumer \<open>k\<close> calls \<^verbatim>\<open>get_frame()\<close>.
  An event of the capture thread that is not its next one leaves the state as it is.
\<close>

fun step :: "event \<Rightarrow> hub \<Rightarrow> hub" where
  "step (Read ret) s =
     (case producer s of
        At_read \<Rightarrow>
          if ret
          then let frame = Suc (captured s)
               in s\<lparr>captured := frame,
                    producer := (if \<not> full (cam s) then At_put frame else At_get frame)\<rparr>
          else s
      | At_get frame \<Rightarrow> s
      | At_put frame \<Rightarrow> s)"
| "step Queue_call s =
     (case producer s of
        At_read \<Rightarrow> s
      | At_get frame \<Rightarrow>
          (case get (cam s) of
             None \<Rightarrow> s
           | Some (_, c) \<Rightarrow> s\<lparr>cam := c, producer := At_put frame\<rparr>)
      | At_put frame \<Rightarrow>
          (case put frame (cam s) of
             None \<Rightarrow> s
           | Some c \<Rightarrow> s\<lparr>cam := c, producer := At_read\<rparr>))"
| "step (Poll k) s =
     (case get_frame (cam s) of
        None \<Rightarrow> s
      | Some (None, c) \<Rightarrow> s\<lparr>cam := c\<rparr>
      | Some (Some x, c) \<Rightarrow> s\<lparr>cam := c, delivered := delivered s @ [(k, x)]\<rparr>)"

fun run :: "event list \<Rightarrow> hub \<Rightarrow> hub" where
  "run [] s = s"
| "run (e # es) s = run es (step e s)"

text \<open>The capture thread is blocked: it is inside a queue call that cannot return in
  the present state.\<close>

definition blocked :: "hub \<Rightarrow> bool" where
  "blocked s =
     (case producer s of
        At_read \<Rightarrow> False
      | At_get frame \<Rightarrow> get (cam s) = None
      | At_put frame \<Rightarrow> put frame (cam s) = None)"

text \<open>One whole pass of the capture thread with a frame, no poll in between: the read,
  then the queue calls of the branch taken.\<close>

definition capture_pass :: "event list" where
  "capture_pass = [Read True, Queue_call, Queue_call]"

text \<open>The frames a consumer has received, in the order of its polls.\<close>

definition received :: "nat \<Rightarrow> hub \<Rightarrow> nat list" where
  "received k s = map snd (filter (\<lambda>d. fst d = k) (delivered s))"

text \<open>The invariant of a run: the frames handed out so far followed by the buffered ones
  are in strictly increasing capture order, none is newer than the last capture, a
  bounded buffer is within its bound, and a frame in the capture thread's hand is the
  last one captured and newer than all of those; when the thread is about to put, a
  bounded buffer has room.\<close>

definition hub_inv :: "hub \<Rightarrow> bool" where
  "hub_inv s =
     (sorted_wrt (<) (map snd (delivered s) @ frame_queue (cam s)) \<and>
      list_all (\<lambda>x. x \<le> captured s) (map snd (delivered s) @ frame_queue (cam s)) \<and>
      (if 0 < maxsize (cam s) then int (length (frame_queue (cam s))) \<le> maxsize (cam s)
       else True) \<and>
      (case producer s of
         At_read \<Rightarrow> True
       | At_get frame \<Rightarrow>
           frame = captured s \<and>
           list_all (\<lambda>x. x < frame) (map snd (delivered s) @ frame_queue (cam s))
       | At_put frame \<Rightarrow>
           frame = captured s \<and>
           list_all (\<lambda>x. x < frame) (map snd (delivered s) @ frame_queue (cam s)) \<and>
           (if 0 < maxsize (cam s) then int (length (frame_queue (cam s))) < maxsize (cam s)
            else True)))"

section \<open>Configuration\<close>

text \<open>
  The module constants of \<^verbatim>\<open>app.py\<close> that the modelled functions read. They are
  gathered in a record that the functions take as an argument; \<open>app_config\<close> holds the
  values the source assigns. Durations are in seconds.
\<close>

record config =
  VIDEO_DURATION :: real
  MAX_VIDEO_DURATION :: real
  MAX_ANOMY_IMAGES :: nat
  CONTOUR_AREA_THRESHOLD :: real
  ANOMALY_COOLDOWN :: real

definition app_config :: config where
  "app_config =
     \<lparr>VIDEO_DURATION = 30 * 60,
      MAX_VIDEO_DURATION = 12 * 60 * 60,
      MAX_ANOMY_IMAGES = 2000,
      CONTOUR_AREA_THRESHOLD = 20000,
      ANOMALY_COOLDOWN = 5\<rparr>"

definition VIDEO_STORAGE_DIR :: string where
  "VIDEO_STORAGE_DIR = ''videos''"

definition ANOMALY_STORAGE_DIR :: string where
  "ANOMALY_STORAGE_DIR = ''anomalies''"

section \<open>Strings, paths and the two storage directories\<close>

text \<open>\<^verbatim>\<open>str.startswith\<close>, \<^verbatim>\<open>str.endswith\<close> and \<^verbatim>\<open>str.replace\<close> (every occurrence,
  left to right, without overlap; an empty pattern matches before every character and at
  the end).\<close>

definition startswith :: "string \<Rightarrow> string \<Rightarrow> bool" where
  "startswith s p = (take (length p) s = p)"

definition endswith :: "string \<Rightarrow> string \<Rightarrow> bool" where
  "endswith s p = (length p \<le> length s \<and> drop (length s - length p) s = p)"

fun replace :: "string \<Rightarrow> string \<Rightarrow> string \<Rightarrow> string" where
  "replace [] old new = (if old = [] then new else [])"
| "replace (c # cs) old new =
     (if old = [] then new @ c # replace cs old new
      else if take (length old) (c # cs) = old
           then new @ replace (drop (length old) (c # cs)) old new
           else c # replace cs old new)"

text \<open>
  A path is a directory with the name of an entry in it: \<^verbatim>\<open>os.path.join\<close> pairs them and
  \<^verbatim>\<open>os.path.basename\<close> gives the name back. The file system maps a directory to the
  names \<^verbatim>\<open>os.listdir\<close> returns for it, in the order it returns them. Both storage
  directories exist (\<^verbatim>\<open>os.makedirs(..., exist_ok=True)\<close> changes nothing then).
\<close>

type_synonym path = "string \<times> string"

type_synonym filesystem = "string \<Rightarrow> string list"

datatype error = FileNotFoundError | ValueError | OverflowError | IndexError

definition os_path_join :: "string \<Rightarrow> string \<Rightarrow> path" where
  "os_path_join d filename = (d, filename)"

definition os_path_basename :: "path \<Rightarrow> string" where
  "os_path_basename p = snd p"

definition os_listdir :: "string \<Rightarrow> filesystem \<Rightarrow> string list" where
  "os_listdir d fs = fs d"

definition os_remove :: "path \<Rightarrow> filesystem \<Rightarrow> error + filesystem" where
  "os_remove p fs =
     (if snd p \<in> set (fs (fst p))
      then Inr (fs(fst p := removeAll (snd p) (fs (fst p))))
      else Inl FileNotFoundError)"

section \<open>The retention sweep\<close>

text \<open>
  What \<^verbatim>\<open>manage_storage\<close> takes from outside the program: the library's
  \<^verbatim>\<open>datetime.strptime(s, "%Y%m%d_%H%M%S")\<close> (\<open>None\<close> when it raises) giving a date
  of some linearly ordered type, \<^verbatim>\<open>time.mktime\<close> of that date's time tuple (\<open>None\<close> when
  it raises), the reading of \<^verbatim>\<open>time.time()\<close> at the start of the sweep, and the
  readings of \<^verbatim>\<open>datetime.now()\<close>, numbered in the order the sweep takes them.
\<close>

record 'd env =
  strptime :: "string \<Rightarrow> 'd option"
  mktime :: "'d \<Rightarrow> real option"
  time_now :: real
  datetime_now :: "nat \<Rightarrow> 'd"

text \<open>The body of the \<^verbatim>\<open>try\<close> blocks of the age passes, up to the comparison:
  \<^verbatim>\<open>time.mktime(datetime.strptime(timestamp_str, ...).timetuple())\<close>.\<close>

definition file_time :: "'d env \<Rightarrow> string \<Rightarrow> error + real" where
  "file_time E timestamp_str =
     (case strptime E timestamp_str of
        None \<Rightarrow> Inl ValueError
      | Some d \<Rightarrow> (case mktime E d of None \<Rightarrow> Inl OverflowError | Some t \<Rightarrow> Inr t))"

text \<open>The whole \<^verbatim>\<open>try\<close> statement: \<^verbatim>\<open>except Exception\<close> catches what the parse
  raises and what \<^verbatim>\<open>os.remove\<close> raises alike, logs, and the loop goes on.\<close>

definition remove_if_old :: "'d env \<Rightarrow> real \<Rightarrow> string \<Rightarrow> path \<Rightarrow> filesystem \<Rightarrow> filesystem" where
  "remove_if_old E cutoff timestamp_str filepath fs =
     (case file_time E timestamp_str of
        Inl e \<Rightarrow> fs
      | Inr t \<Rightarrow>
          if t < cutoff
          then (case os_remove filepath fs of Inl e \<Rightarrow> fs | Inr fs' \<Rightarrow> fs')
          else fs)"

text \<open>The loop over the video directory (lines 166 to 176). The listing is taken once,
  before the loop; the loop body runs on the file system as it is by then.\<close>

definition video_step :: "'d env \<Rightarrow> real \<Rightarrow> string \<Rightarrow> filesystem \<Rightarrow> filesystem" where
  "video_step E cutoff filename fs =
     (if startswith filename ''video_'' \<and> endswith filename ''.mp4''
      then let filepath = os_path_join VIDEO_STORAGE_DIR filename;
               timestamp_str = replace (replace filename ''video_'' '''') ''.mp4'' ''''
           in remove_if_old E cutoff timestamp_str filepath fs
      else fs)"

definition manage_videos :: "'d env \<Rightarrow> real \<Rightarrow> string list \<Rightarrow> filesystem \<Rightarrow> filesystem" where
  "manage_videos E cutoff listing fs = fold (video_step E cutoff) listing fs"

text \<open>The list of snapshot paths (lines 179 to 183, and again 209 to 210).\<close>

definition is_anomaly_file :: "string \<Rightarrow> bool" where
  "is_anomaly_file f = (startswith f ''anomaly_'' \<and> endswith f ''.jpg'')"

definition list_anomaly_files :: "filesystem \<Rightarrow> path list" where
  "list_anomaly_files fs =
     map (os_path_join ANOMALY_STORAGE_DIR)
       (filter is_anomaly_file (os_listdir ANOMALY_STORAGE_DIR fs))"

definition time_str :: "path \<Rightarrow> string" where
  "time_str fpath = replace (replace (os_path_basename fpath) ''anomaly_'' '''') ''.jpg'' ''''"

text \<open>
  \<^verbatim>\<open>anomaly_files.sort(key=lambda x: extract_time(x), reverse=True)\<close>. The sort calls
  \<^verbatim>\<open>extract_time\<close> once for each element, in list order; a call whose parse fails
  returns the next reading of \<^verbatim>\<open>datetime.now()\<close>, numbered from \<open>k\<close>. The sort is
  stable and \<^verbatim>\<open>reverse=True\<close> keeps elements with equal keys in their original order.
\<close>

fun extract_times :: "'d env \<Rightarrow> nat \<Rightarrow> path list \<Rightarrow> 'd list" where
  "extract_times E k [] = []"
| "extract_times E k (fpath # rest) =
     (case strptime E (time_str fpath) of
        Some d \<Rightarrow> d # extract_times E k rest
      | None \<Rightarrow> datetime_now E k # extract_times E (Suc k) rest)"

definition sort_latest_first :: "('d::linorder) env \<Rightarrow> nat \<Rightarrow> path list \<Rightarrow> path list" where
  "sort_latest_first E k files =
     map snd (rev (sort_key fst (rev (zip (extract_times E k files) files))))"

definition fallbacks :: "'d env \<Rightarrow> path list \<Rightarrow> nat" where
  "fallbacks E files = length (filter (\<lambda>p. strptime E (time_str p) = None) files)"

text \<open>The age pass over the sorted snapshot paths (lines 197 to 206).\<close>

definition anomaly_step :: "'d env \<Rightarrow> real \<Rightarrow> path \<Rightarrow> filesystem \<Rightarrow> filesystem" where
  "anomaly_step E cutoff filepath fs =
     (let base = os_path_basename filepath;
          timestamp_str = replace (replace base ''anomaly_'' '''') ''.jpg'' ''''
      in remove_if_old E cutoff timestamp_str filepath fs)"

definition manage_anomaly_age :: "'d env \<Rightarrow> real \<Rightarrow> path list \<Rightarrow> filesystem \<Rightarrow> filesystem" where
  "manage_anomaly_age E cutoff files fs = fold (anomaly_step E cutoff) files fs"

text \<open>
  The loop \<^verbatim>\<open>for i in range(excess): os.remove(anomaly_files[-1])\<close> (lines 215 to
  217). The list is not changed by the loop, so every pass names its last element. The
  call of \<^verbatim>\<open>os.remove\<close> stands outside any \<^verbatim>\<open>try\<close>: what it raises leaves the loop
  and the sweep, and the result is the error with the file system as it is by then.
\<close>

fun remove_oldest :: "nat \<Rightarrow> path list \<Rightarrow> filesystem \<Rightarrow> (error \<times> filesystem) + filesystem" where
  "remove_oldest 0 files fs = Inr fs"
| "remove_oldest (Suc i) files fs =
     (if files = [] then Inl (IndexError, fs)
      else (case os_remove (last files) fs of
              Inl e \<Rightarrow> Inl (e, fs)
            | Inr fs' \<Rightarrow> remove_oldest i files fs'))"

text \<open>The count pass (lines 211 to 217) on a list of snapshot paths.\<close>

definition trim_count ::
  "config \<Rightarrow> ('d::linorder) env \<Rightarrow> nat \<Rightarrow> path list \<Rightarrow> filesystem \<Rightarrow> (error \<times> filesystem) + filesystem" where
  "trim_count cfg E k anomaly_files fs =
     (if length anomaly_files > MAX_ANOMY_IMAGES cfg
      then let sorted_files = sort_latest_first E k anomaly_files;
               excess = length anomaly_files - MAX_ANOMY_IMAGES cfg
           in remove_oldest excess sorted_files fs
      else Inr fs)"

text \<open>The two age passes of \<^verbatim>\<open>manage_storage\<close> (lines 158 to 206), then the whole
  function: the snapshot directory is listed again and the count pass runs on that list.
  The second sort takes its readings of \<^verbatim>\<open>datetime.now()\<close> after those of the first
  sort, which took one for every name that did not parse.\<close>

definition age_passes :: "config \<Rightarrow> ('d::linorder) env \<Rightarrow> filesystem \<Rightarrow> filesystem" where
  "age_passes cfg E fs =
     (let cutoff = time_now E - MAX_VIDEO_DURATION cfg;
          fs1 = manage_videos E cutoff (os_listdir VIDEO_STORAGE_DIR fs) fs;
          anomaly_files = sort_latest_first E 0 (list_anomaly_files fs1)
      in manage_anomaly_age E cutoff anomaly_files fs1)"

definition first_sort_fallbacks :: "config \<Rightarrow> 'd env \<Rightarrow> filesystem \<Rightarrow> nat" where
  "first_sort_fallbacks cfg E fs =
     fallbacks E
       (list_anomaly_files
          (manage_videos E (time_now E - MAX_VIDEO_DURATION cfg)
             (os_listdir VIDEO_STORAGE_DIR fs) fs))"

definition manage_storage ::
  "config \<Rightarrow> ('d::linorder) env \<Rightarrow> filesystem \<Rightarrow> (error \<times> filesystem) + filesystem" where
  "manage_storage cfg E fs =
     (let fs2 = age_passes cfg E fs;
          k = first_sort_fallbacks cfg E fs
      in trim_count cfg E k (list_anomaly_files fs2) fs2)"

text \<open>The file system a sweep leaves behind, whether it returned or raised.\<close>

definition fs_after :: "(error \<times> filesystem) + filesystem \<Rightarrow> filesystem" where
  "fs_after r = (case r of Inl (e, fs) \<Rightarrow> fs | Inr fs \<Rightarrow> fs)"

section \<open>The anomalies endpoint\<close>

text \<open>Python's slice \<^verbatim>\<open>xs[start:end]\<close> for integer bounds: a negative bound counts from
  the end, and both bounds are clamped to the list.\<close>

definition py_slice :: "'a list \<Rightarrow> int \<Rightarrow> int \<Rightarrow> 'a list" where
  "py_slice xs start end =
     (let n = int (length xs);
          lo = (if start < 0 then max 0 (n + start) else min n start);
          hi = (if end < 0 then max 0 (n + end) else min n end)
      in take (nat (hi - lo)) (drop (nat lo) xs))"

text \<open>The list of snapshot names of \<^verbatim>\<open>get_anomalies\<close>, sorted with
  \<^verbatim>\<open>sort(reverse=True)\<close> (lines 283 and 284).\<close>

definition anomaly_files_latest_first :: "filesystem \<Rightarrow> string list" where
  "anomaly_files_latest_first fs =
     rev (sort (filter is_anomaly_file (os_listdir ANOMALY_STORAGE_DIR fs)))"

text \<open>\<^verbatim>\<open>get_anomalies\<close>: the arguments are the values of the query parameters
  \<^verbatim>\<open>page\<close> and \<^verbatim>\<open>per_page\<close>; the result is the list of the \<^verbatim>\<open>url\<close> fields of the
  JSON answer.\<close>

definition get_anomalies :: "int \<Rightarrow> int \<Rightarrow> filesystem \<Rightarrow> string list" where
  "get_anomalies page per_page fs =
     (let anomaly_files = anomaly_files_latest_first fs;
          start = (page - 1) * per_page;
          end = start + per_page;
          paginated_files = py_slice anomaly_files start end
      in map (\<lambda>filename. ''/anomalies/'' @ filename) paginated_files)"

section \<open>The recorder\<close>

text \<open>
  The local state of \<^verbatim>\<open>record_video\<close>: the open writer (the path of its file, \<open>None\<close>
  for Python's \<^verbatim>\<open>None\<close>), \<^verbatim>\<open>end_time\<close>, and the frames written into each file so
  far. One pass of the loop reads: the polled frame, the text of
  \<^verbatim>\<open>datetime.now().strftime(...)\<close>, and the three readings of \<^verbatim>\<open>time.time()\<close> (lines
  351, 356 and 362).
\<close>

record 'f recorder =
  video_writer :: "path option"
  end_time :: real
  written :: "path \<rightharpoonup> 'f list"

record 'f record_input =
  rec_frame :: "'f option"
  rec_timestamp :: string
  rec_time_open :: real
  rec_time_check :: real
  rec_time_sweep :: real

definition record_video_init :: "config \<Rightarrow> real \<Rightarrow> 'f recorder" where
  "record_video_init cfg t = \<lparr>video_writer = None, end_time = t + VIDEO_DURATION cfg, written = Map.empty\<rparr>"

definition writer_write :: "'f \<Rightarrow> 'f recorder \<Rightarrow> 'f recorder" where
  "writer_write x st =
     (case video_writer st of
        None \<Rightarrow> st
      | Some w \<Rightarrow>
          st\<lparr>written := (written st)(w \<mapsto> (case written st w of None \<Rightarrow> [x] | Some xs \<Rightarrow> xs @ [x]))\<rparr>)"

text \<open>One pass of the loop of \<^verbatim>\<open>record_video\<close>. The second component tells whether the
  pass calls \<^verbatim>\<open>manage_storage\<close> (\<^verbatim>\<open>int(time.time()) % 300 == 0\<close>); a pass without a
  frame reaches neither the writer nor that test.\<close>

definition record_cycle ::
  "config \<Rightarrow> 'f record_input \<Rightarrow> 'f recorder \<Rightarrow> 'f recorder \<times> bool" where
  "record_cycle cfg inp st =
     (case rec_frame inp of
        None \<Rightarrow> (st, False)
      | Some x \<Rightarrow>
          let st1 = (if video_writer st = None
                     then let video_filename =
                                os_path_join VIDEO_STORAGE_DIR (''video_'' @ rec_timestamp inp @ ''.mp4'')
                          in st\<lparr>video_writer := Some video_filename,
                                written := (written st)(video_filename \<mapsto> []),
                                end_time := rec_time_open inp + VIDEO_DURATION cfg\<rparr>
                     else st);
              st2 = writer_write x st1;
              st3 = (if rec_time_check inp \<ge> end_time st2
                     then st2\<lparr>video_writer := None\<rparr>
                     else st2)
          in (st3, \<lfloor>rec_time_sweep inp\<rfloor> mod 300 = 0))"

section \<open>The detector\<close>

text \<open>
  The local state of \<^verbatim>\<open>detect_anomalies\<close> is \<^verbatim>\<open>last_capture_time\<close>; the model adds
  the calls of \<^verbatim>\<open>cv2.imwrite\<close> made so far (path and frame). One pass of the loop reads:
  the polled frame, the areas of the contours that the background subtractor and the
  contour finder return for it, \<^verbatim>\<open>time.time()\<close> (lines 406 and 418) and the text of
  \<^verbatim>\<open>datetime.now().strftime(...)\<close>.
\<close>

record 'f detector =
  last_capture_time :: real
  snapshots :: "(path \<times> 'f) list"

record 'f detect_input =
  det_frame :: "'f option"
  det_areas :: "real list"
  det_now :: real
  det_timestamp :: string
  det_time_sweep :: real

definition detect_anomalies_init :: "'f detector" where
  "detect_anomalies_init = \<lparr>last_capture_time = 0, snapshots = []\<rparr>"

text \<open>The loop over the contours (lines 397 to 402).\<close>

fun anomaly_detected :: "config \<Rightarrow> real list \<Rightarrow> bool" where
  "anomaly_detected cfg [] = False"
| "anomaly_detected cfg (area # rest) =
     (if area > CONTOUR_AREA_THRESHOLD cfg then True else anomaly_detected cfg rest)"

definition detect_cycle ::
  "config \<Rightarrow> 'f detect_input \<Rightarrow> 'f detector \<Rightarrow> 'f detector \<times> bool" where
  "detect_cycle cfg inp st =
     (case det_frame inp of
        None \<Rightarrow> (st, False)
      | Some x \<Rightarrow>
          let st' = (if anomaly_detected cfg (det_areas inp)
                     then let now = det_now inp
                          in if now - last_capture_time st \<ge> ANOMALY_COOLDOWN cfg
                             then let anomaly_filename =
                                        os_path_join ANOMALY_STORAGE_DIR
                                          (''anomaly_'' @ det_timestamp inp @ ''.jpg'')
                                  in st\<lparr>snapshots := snapshots st @ [(anomaly_filename, x)],
                                        last_capture_time := now\<rparr>
                             else st
                     else st)
          in (st', \<lfloor>det_time_sweep inp\<rfloor> mod 60 = 0))"

text \<open>A run of the detector: the passes of its loop, one after the other.\<close>

fun detect_run :: "config \<Rightarrow> 'f detect_input list \<Rightarrow> 'f detector \<Rightarrow> 'f detector" where
  "detect_run cfg [] st = st"
| "detect_run cfg (inp # inps) st = detect_run cfg inps (fst (detect_cycle cfg inp st))"

fun record_run :: "config \<Rightarrow> 'f record_input list \<Rightarrow> 'f recorder \<Rightarrow> 'f recorder" where
  "record_run cfg [] st = st"
| "record_run cfg (inp # inps) st = record_run cfg inps (fst (record_cycle cfg inp st))"

text \<open>
  The detections of a run, in order: the passes that polled a frame and flagged an
  anomaly, each with its clock reading and with what it writes if it is not suppressed
  (the path of the snapshot and the frame).
\<close>

fun detections :: "config \<Rightarrow> 'f detect_input list \<Rightarrow> (real \<times> path \<times> 'f) list" where
  "detections cfg [] = []"
| "detections cfg (inp # inps) =
     (case det_frame inp of
        None \<Rightarrow> detections cfg inps
      | Some x \<Rightarrow>
          if anomaly_detected cfg (det_areas inp)
          then (det_now inp,
                os_path_join ANOMALY_STORAGE_DIR (''anomaly_'' @ det_timestamp inp @ ''.jpg''),
                x) # detections cfg inps
          else detections cfg inps)"

text \<open>
  The cooldown gate in the words of the specification, to compare the detector with: of
  a list of detections with their times, one is written if and only if its time is at
  least the cooldown after the last capture, and the last capture is the last detection
  that was written (\<open>last_capture\<close> before any). A suppressed detection changes nothing.
\<close>

fun cooldown_gate :: "real \<Rightarrow> real \<Rightarrow> (real \<times> 'a) list \<Rightarrow> (real \<times> 'a) list" where
  "cooldown_gate cooldown last_capture [] = []"
| "cooldown_gate cooldown last_capture ((t, a) # ds) =
     (if cooldown \<le> t - last_capture
      then (t, a) # cooldown_gate cooldown t ds
      else cooldown_gate cooldown last_capture ds)"

section \<open>Example inputs\<close>

text \<open>
  A small configuration (at most two snapshots), a clock and parser that know four time
  stamps, and a snapshot directory of four files, used to run the sweep on concrete data.
\<close>

definition example_config :: config where
  "example_config = app_config\<lparr>MAX_ANOMY_IMAGES := 2\<rparr>"

definition example_env :: "int env" where
  "example_env =
     \<lparr>strptime = [''20250101_000001'' \<mapsto> 1, ''20250101_000002'' \<mapsto> 2,
                  ''20250101_000003'' \<mapsto> 3, ''20250101_000004'' \<mapsto> 4],
      mktime = (\<lambda>d. Some (of_int d)),
      time_now = 10,
      datetime_now = (\<lambda>k. 100 + int k)\<rparr>"

definition example_fs :: filesystem where
  "example_fs =
     (\<lambda>d. if d = ''anomalies''
          then [''anomaly_20250101_000003.jpg'', ''anomaly_20250101_000001.jpg'',
                ''anomaly_20250101_000004.jpg'', ''anomaly_20250101_000002.jpg'']
          else [])"

definition example_vanished_fs :: filesystem where
  "example_vanished_fs =
     (\<lambda>d. if d = ''anomalies''
          then [''anomaly_20250101_000003.jpg'',
                ''anomaly_20250101_000004.jpg'', ''anomaly_20250101_000002.jpg'']
          else [])"


definition example_fs25 :: filesystem where
  "example_fs25 =
     (\<lambda>d. if d = ''anomalies''
          then [''anomaly_20250101_000007.jpg'', ''anomaly_20250101_000017.jpg'', ''anomaly_20250101_000023.jpg'',
                ''anomaly_20250101_000015.jpg'', ''anomaly_20250101_000002.jpg'', ''anomaly_20250101_000006.jpg'',
                ''anomaly_20250101_000021.jpg'', ''anomaly_20250101_000011.jpg'', ''anomaly_20250101_000010.jpg'',
                ''anomaly_20250101_000014.jpg'', ''anomaly_20250101_000025.jpg'', ''anomaly_20250101_000013.jpg'',
                ''anomaly_20250101_000004.jpg'', ''anomaly_20250101_000009.jpg'', ''anomaly_20250101_000022.jpg'',
                ''anomaly_20250101_000024.jpg'', ''anomaly_20250101_000001.jpg'', ''anomaly_20250101_000003.jpg'',
                ''anomaly_20250101_000016.jpg'', ''anomaly_20250101_000020.jpg'', ''anomaly_20250101_000012.jpg'',
                ''anomaly_20250101_000005.jpg'', ''anomaly_20250101_000018.jpg'', ''anomaly_20250101_000019.jpg'',
                ''anomaly_20250101_000008.jpg'']
          else [])"



text \<open>Passes of the detector and of the recorder on concrete data; frames are numbers.\<close>

definition flagged_pass :: "real \<Rightarrow> string \<Rightarrow> 'f \<Rightarrow> 'f detect_input" where
  "flagged_pass t stamp x =
     \<lparr>det_frame = Some x, det_areas = [150, 20001], det_now = t,
      det_timestamp = stamp, det_time_sweep = t\<rparr>"

definition frame_pass :: "real \<Rightarrow> string \<Rightarrow> 'f \<Rightarrow> 'f record_input" where
  "frame_pass t stamp x =
     \<lparr>rec_frame = Some x, rec_timestamp = stamp, rec_time_open = t,
      rec_time_check = t, rec_time_sweep = t\<rparr>"

section \<open>Properties of the hub\<close>

lemma hub_inv_init: "hub_inv (hub_init n)"
  by (simp add: hub_inv_def hub_init_def SharedCamera_init_def)

lemma get_frame_eq:
  "get_frame c =
     (case frame_queue c of
        [] \<Rightarrow> Some (None, c)
      | x # xs \<Rightarrow> Some (Some x, c\<lparr>frame_queue := xs\<rparr>))"
  by (simp add: get_frame_def empty_def get_def split: list.splits)

lemma step_Read_inv:
  assumes "hub_inv s"
  shows "hub_inv (step (Read ret) s) \<and> maxsize (cam (step (Read ret) s)) = maxsize (cam s)"
proof (cases "producer s")
  case At_read
  show ?thesis
  proof (cases ret)
    case False
    with At_read assms show ?thesis by simp
  next
    case True
    from assms have le: "list_all (\<lambda>x. x \<le> captured s) (map snd (delivered s) @ frame_queue (cam s))"
      by (simp add: hub_inv_def)
    then have lt: "list_all (\<lambda>x. x < Suc (captured s)) (map snd (delivered s) @ frame_queue (cam s))"
      and le': "list_all (\<lambda>x. x \<le> Suc (captured s)) (map snd (delivered s) @ frame_queue (cam s))"
      by (auto simp: list_all_iff less_Suc_eq_le intro: le_SucI)
    from assms have rest: "sorted_wrt (<) (map snd (delivered s) @ frame_queue (cam s))"
      "if 0 < maxsize (cam s) then int (length (frame_queue (cam s))) \<le> maxsize (cam s) else True"
      by (simp_all add: hub_inv_def)
    show ?thesis
    proof (cases "full (cam s)")
      case f: True
      with At_read True lt le' rest show ?thesis
        by (simp add: hub_inv_def Let_def)
    next
      case f: False
      then have "if 0 < maxsize (cam s) then int (length (frame_queue (cam s))) < maxsize (cam s)
                 else True"
        by (auto simp: full_def)
      with f At_read True lt le' rest show ?thesis
        by (simp add: hub_inv_def Let_def)
    qed
  qed
next
  case (At_get x)
  with assms show ?thesis by simp
next
  case (At_put x)
  with assms show ?thesis by simp
qed

lemma step_Queue_call_inv:
  assumes "hub_inv s"
  shows "hub_inv (step Queue_call s) \<and> maxsize (cam (step Queue_call s)) = maxsize (cam s)"
proof (cases "producer s")
  case At_read
  with assms show ?thesis by simp
next
  case (At_get frame)
  show ?thesis
  proof (cases "frame_queue (cam s)")
    case Nil
    with At_get assms show ?thesis by (simp add: get_def)
  next
    case (Cons y ys)
    have st: "step Queue_call s = s\<lparr>cam := (cam s)\<lparr>frame_queue := ys\<rparr>, producer := At_put frame\<rparr>"
      using At_get Cons by (simp add: get_def)
    from assms At_get Cons show ?thesis
      unfolding st by (auto simp: hub_inv_def sorted_wrt_append split: if_splits)
  qed
next
  case (At_put frame)
  show ?thesis
  proof (cases "full (cam s)")
    case True
    with At_put assms show ?thesis by (simp add: put_def)
  next
    case False
    have st: "step Queue_call s =
        s\<lparr>cam := (cam s)\<lparr>frame_queue := frame_queue (cam s) @ [frame]\<rparr>, producer := At_read\<rparr>"
      using At_put False by (simp add: put_def)
    from assms At_put show ?thesis
      unfolding st
      by (auto simp: hub_inv_def sorted_wrt_append list_all_iff split: if_splits)
  qed
qed

lemma step_Poll_inv:
  assumes "hub_inv s"
  shows "hub_inv (step (Poll k) s) \<and> maxsize (cam (step (Poll k) s)) = maxsize (cam s)"
proof (cases "frame_queue (cam s)")
  case Nil
  with assms show ?thesis by (simp add: get_frame_eq)
next
  case (Cons x xs)
  have st: "step (Poll k) s =
      s\<lparr>cam := (cam s)\<lparr>frame_queue := xs\<rparr>, delivered := delivered s @ [(k, x)]\<rparr>"
    using Cons by (simp add: get_frame_eq)
  from assms Cons show ?thesis
    unfolding st
    by (cases "producer s") (auto simp: hub_inv_def split: if_splits)
qed

lemma step_inv:
  "hub_inv s \<Longrightarrow> hub_inv (step e s) \<and> maxsize (cam (step e s)) = maxsize (cam s)"
  by (cases e) (simp_all only: step_Read_inv step_Queue_call_inv step_Poll_inv)

lemma run_inv:
  "hub_inv s \<Longrightarrow> hub_inv (run es s) \<and> maxsize (cam (run es s)) = maxsize (cam s)"
proof (induction es arbitrary: s)
  case Nil
  then show ?case by simp
next
  case (Cons e es)
  from step_inv [OF Cons.prems, of e] Cons.IH [of "step e s"] show ?case by simp
qed

lemma run_append: "run (es @ fs) s = run fs (run es s)"
  by (induction es arbitrary: s) auto

lemma run_reachable:
  "hub_inv (run es (hub_init n)) \<and> maxsize (cam (run es (hub_init n))) = n"
  using run_inv [OF hub_inv_init, of es n]
  by (simp add: hub_init_def SharedCamera_init_def)

lemma sorted_wrt_filter_less:
  "sorted_wrt (<) (map snd xs) \<Longrightarrow> sorted_wrt (<) (map snd (filter P xs))"
  by (induction xs) auto

text \<open>Without polls in between, the events of one pass do what \<^verbatim>\<open>update\<close> does.\<close>

lemma capture_pass_update:
  assumes "hub_inv s" and "producer s = At_read"
  shows "update (Some (Suc (captured s))) (cam s) = Some (cam (run capture_pass s)) \<and>
         producer (run capture_pass s) = At_read \<and>
         captured (run capture_pass s) = Suc (captured s) \<and>
         delivered (run capture_pass s) = delivered s"
proof (cases "full (cam s)")
  case False
  with assms(2) show ?thesis
    by (simp add: capture_pass_def update_def put_def Let_def)
next
  case True
  then obtain y ys where q: "frame_queue (cam s) = y # ys"
    by (cases "frame_queue (cam s)") (auto simp: full_def)
  from assms(1) True have "int (length (frame_queue (cam s))) = maxsize (cam s)"
    by (auto simp: hub_inv_def full_def split: if_splits)
  with q have nf: "\<not> full ((cam s)\<lparr>frame_queue := ys\<rparr>)"
    by (auto simp: full_def)
  with True q assms(2) show ?thesis
    by (simp add: capture_pass_def update_def get_def put_def Let_def)
qed

lemma capture_run:
  assumes "k \<le> 10"
  shows "run (concat (replicate k capture_pass)) (hub_init 10) =
           \<lparr>cam = \<lparr>maxsize = 10, frame_queue = [1..<Suc k]\<rparr>, producer = At_read,
              captured = k, delivered = []\<rparr>"
  using assms
proof (induction k)
  case 0
  then show ?case by (simp add: hub_init_def SharedCamera_init_def)
next
  case (Suc k)
  then have ih: "run (concat (replicate k capture_pass)) (hub_init 10) =
      \<lparr>cam = \<lparr>maxsize = 10, frame_queue = [1..<Suc k]\<rparr>, producer = At_read,
         captured = k, delivered = []\<rparr>"
    by simp
  have rep: "concat (replicate (Suc k) capture_pass) = concat (replicate k capture_pass) @ capture_pass"
    by (simp add: replicate_append_same [symmetric])
  from Suc.prems have nf: "\<not> full \<lparr>maxsize = 10, frame_queue = [1..<Suc k]\<rparr>"
    by (simp add: full_def)
  show ?case
    unfolding rep run_append ih
    using nf by (simp add: capture_pass_def put_def Let_def)
qed

lemma capture_run_5:
  "run (concat (replicate 5 capture_pass)) (hub_init 10) =
     \<lparr>cam = \<lparr>maxsize = 10, frame_queue = [1, 2, 3, 4, 5]\<rparr>, producer = At_read,
        captured = 5, delivered = []\<rparr>"
proof -
  have u: "[1..<Suc 5] = [1, 2, 3, 4, 5]" by code_simp
  have "(5::nat) \<le> 10" by simp
  from capture_run [OF this] show ?thesis unfolding u .
qed

lemma capture_run_10:
  "run (concat (replicate 10 capture_pass)) (hub_init 10) =
     \<lparr>cam = \<lparr>maxsize = 10, frame_queue = [1, 2, 3, 4, 5, 6, 7, 8, 9, 10]\<rparr>,
        producer = At_read, captured = 10, delivered = []\<rparr>"
proof -
  have u: "[1..<Suc 10] = [1, 2, 3, 4, 5, 6, 7, 8, 9, 10]" by code_simp
  have "(10::nat) \<le> 10" by simp
  from capture_run [OF this] show ?thesis unfolding u .
qed

lemma drained_state:
  "run [Read True,
        Poll 0, Poll 1, Poll 2, Poll 3, Poll 4, Poll 5, Poll 6, Poll 7, Poll 8, Poll 9,
        Queue_call]
     \<lparr>cam = \<lparr>maxsize = 10, frame_queue = [1, 2, 3, 4, 5, 6, 7, 8, 9, 10]\<rparr>,
        producer = At_read, captured = 10, delivered = []\<rparr> =
   \<lparr>cam = \<lparr>maxsize = 10, frame_queue = []\<rparr>, producer = At_get 11, captured = 11,
      delivered = [(0, 1), (1, 2), (2, 3), (3, 4), (4, 5), (5, 6), (6, 7), (7, 8), (8, 9), (9, 10)]\<rparr>"
  by (simp add: full_def get_frame_eq get_def Let_def)

lemma get_frame_buffered:
  "\<exists>r c'. get_frame c = Some (r, c') \<and>
     (case r of
        None \<Rightarrow> frame_queue c = []
      | Some x \<Rightarrow> x \<in> set (frame_queue c) \<and> frame_queue c' = remove1 x (frame_queue c))"
  by (cases "frame_queue c") (auto simp: get_frame_eq)

text \<open>Once the capture thread is inside \<^verbatim>\<open>get()\<close> on the empty queue, no event changes
  the state: polls find nothing, and nobody else puts.\<close>

lemma blocked_in_get_forever:
  assumes "producer s = At_get frame" and "frame_queue (cam s) = []"
  shows "run es s = s"
proof (induction es)
  case Nil
  show ?case by simp
next
  case (Cons e es)
  have "step e s = s"
    using assms by (cases e) (simp_all add: get_def get_frame_eq)
  with Cons show ?case by simp
qed

lemma put_returns:
  assumes "hub_inv s" and "producer s = At_put frame"
  shows "put frame (cam s) \<noteq> None"
  using assms by (auto simp: hub_inv_def put_def full_def split: if_splits)

section \<open>Claims about the hub\<close>

text \<open>
  C9 (bounded buffer, producer that does not block) fails on the code in its second
  half. In every run of the hub built with \<^verbatim>\<open>queue_size=10\<close> the buffer holds at most
  10 frames. But the capture thread can block for ever: ten passes fill the buffer; the
  thread reads frame 11, finds the queue full and goes on to \<^verbatim>\<open>get()\<close>; before that call
  takes effect the consumers poll ten times and empty the buffer; the call of \<^verbatim>\<open>get()\<close>
  then finds no frame and blocks. Whatever events follow, the thread stays inside
  \<^verbatim>\<open>get()\<close>, frame 11 never reaches the buffer and no further frame is captured.
\<close>

theorem producer_blocks_after_drain:
  "length (frame_queue (cam (run es (hub_init 10)))) \<le> 10 \<and>
   blocked (run (concat (replicate 10 capture_pass) @ [Read True] @
                 [Poll 0, Poll 1, Poll 2, Poll 3, Poll 4, Poll 5, Poll 6, Poll 7, Poll 8, Poll 9] @
                 [Queue_call] @ es')
              (hub_init 10)) \<and>
   producer (run (concat (replicate 10 capture_pass) @ [Read True] @
                 [Poll 0, Poll 1, Poll 2, Poll 3, Poll 4, Poll 5, Poll 6, Poll 7, Poll 8, Poll 9] @
                 [Queue_call] @ es')
              (hub_init 10)) = At_get 11 \<and>
   frame_queue (cam (run (concat (replicate 10 capture_pass) @ [Read True] @
                 [Poll 0, Poll 1, Poll 2, Poll 3, Poll 4, Poll 5, Poll 6, Poll 7, Poll 8, Poll 9] @
                 [Queue_call] @ es')
              (hub_init 10))) = [] \<and>
   captured (run (concat (replicate 10 capture_pass) @ [Read True] @
                 [Poll 0, Poll 1, Poll 2, Poll 3, Poll 4, Poll 5, Poll 6, Poll 7, Poll 8, Poll 9] @
                 [Queue_call] @ es')
              (hub_init 10)) = 11"
proof -
  let ?polls = "[Poll 0, Poll 1, Poll 2, Poll 3, Poll 4, Poll 5, Poll 6, Poll 7, Poll 8, Poll 9]"
  let ?s = "\<lparr>cam = \<lparr>maxsize = 10, frame_queue = []\<rparr>, producer = At_get 11, captured = 11,
      delivered = [(0, 1), (1, 2), (2, 3), (3, 4), (4, 5), (5, 6), (6, 7), (7, 8), (8, 9), (9, 10)]\<rparr>"
  have p: "producer ?s = At_get 11" and q: "frame_queue (cam ?s) = []" by simp_all
  have split: "concat (replicate 10 capture_pass) @ [Read True] @ ?polls @ [Queue_call] @ es' =
      concat (replicate 10 capture_pass) @
        [Read True, Poll 0, Poll 1, Poll 2, Poll 3, Poll 4, Poll 5, Poll 6, Poll 7, Poll 8, Poll 9,
         Queue_call] @ es'"
    by simp
  have r: "run (concat (replicate 10 capture_pass) @ [Read True] @ ?polls @ [Queue_call] @ es')
             (hub_init 10) = ?s"
    unfolding split run_append capture_run_10 drained_state
    by (rule blocked_in_get_forever [OF p q])
  have b: "blocked ?s" by (simp add: blocked_def get_def)
  from run_reachable [of es 10] have l: "length (frame_queue (cam (run es (hub_init 10)))) \<le> 10"
    by (auto simp: hub_inv_def split: if_splits)
  show ?thesis unfolding r using l b by simp
qed

text \<open>
  C7 (freshness monotonicity). In every run of the hub, for every queue size, every
  interleaving of the capture thread's steps with the polls and every consumer \<open>k\<close>, the
  frames that \<open>k\<close> received by its successive non-empty polls are in strictly increasing
  capture order.
\<close>

theorem received_strictly_increasing:
  "sorted_wrt (<) (received k (run es (hub_init n)))"
proof -
  from run_reachable [of es n] have "sorted_wrt (<) (map snd (delivered (run es (hub_init n))))"
    by (simp add: hub_inv_def sorted_wrt_append)
  then show ?thesis
    unfolding received_def by (rule sorted_wrt_filter_less)
qed

text \<open>
  C10 (single delivery across consumers). In every run of the hub, for every queue size
  and every interleaving, the list of all deliveries (to whichever consumer) names no
  frame twice, and no frame that was delivered is still in the shared buffer: a poll
  removes what it returns.
\<close>

theorem delivered_at_most_once:
  "distinct (map snd (delivered (run es (hub_init n)))) \<and>
   set (map snd (delivered (run es (hub_init n)))) \<inter>
     set (frame_queue (cam (run es (hub_init n)))) = {}"
proof -
  from run_reachable [of es n]
  have "distinct (map snd (delivered (run es (hub_init n))) @ frame_queue (cam (run es (hub_init n))))"
    by (simp add: hub_inv_def strict_sorted_iff del: distinct_append)
  then show ?thesis by auto
qed

text \<open>
  C1, as the specification states it, fails: after frames 1 to 5 are captured into the
  empty hub, the first poll of a consumer returns frame 1, and its next four polls return
  frames 2, 3, 4 and 5: the intermediate frames are queued and delivered, not dropped.
\<close>

theorem latest_wins_counterexample:
  "received 0 (run (concat (replicate 5 capture_pass) @ [Poll 0]) (hub_init 10)) = [1] \<and>
   received 0 (run (concat (replicate 5 capture_pass) @ [Poll 0, Poll 0, Poll 0, Poll 0, Poll 0])
                 (hub_init 10)) = [1, 2, 3, 4, 5] \<and>
   get_frame \<lparr>maxsize = 10, frame_queue = [1, 2, 3, 4, 5 :: nat]\<rparr> \<noteq>
     Some (Some 5, \<lparr>maxsize = 10, frame_queue = []\<rparr>)"
  unfolding run_append capture_run_5
  by (simp add: get_frame_eq received_def)

text \<open>
  C1, amended (frames are queued, not overwritten). When \<open>k \<le> 10\<close> frames are captured
  into the empty hub before any poll, the buffer holds all of them in capture order, none
  was dropped and none delivered. A poll on that buffer returns: with \<open>k = 0\<close> it is
  empty, otherwise it hands out one buffered frame and leaves every other frame queued
  for later polls.
\<close>

theorem frames_queued_not_dropped:
  assumes "k \<le> 10"
  shows "frame_queue (cam (run (concat (replicate k capture_pass)) (hub_init 10))) = [1..<Suc k] \<and>
         delivered (run (concat (replicate k capture_pass)) (hub_init 10)) = [] \<and>
         (\<exists>r c'. get_frame (cam (run (concat (replicate k capture_pass)) (hub_init 10))) = Some (r, c') \<and>
            (case r of
               None \<Rightarrow> k = 0
             | Some x \<Rightarrow>
                 x \<in> set (frame_queue (cam (run (concat (replicate k capture_pass)) (hub_init 10)))) \<and>
                 frame_queue c' =
                   remove1 x (frame_queue (cam (run (concat (replicate k capture_pass)) (hub_init 10))))))"
proof -
  let ?s = "\<lparr>cam = \<lparr>maxsize = 10, frame_queue = [1..<Suc k]\<rparr>, producer = At_read,
              captured = k, delivered = []\<rparr>"
  have r: "run (concat (replicate k capture_pass)) (hub_init 10) = ?s"
    by (rule capture_run [OF assms])
  have inner: "\<exists>r c'. get_frame (cam ?s) = Some (r, c') \<and>
               (case r of
                  None \<Rightarrow> k = 0
                | Some x \<Rightarrow> x \<in> set (frame_queue (cam ?s)) \<and>
                    frame_queue c' = remove1 x (frame_queue (cam ?s)))"
  proof (cases k)
    case 0
    then show ?thesis by (simp add: get_frame_eq)
  next
    case (Suc j)
    then have "[1..<Suc k] \<noteq> []" by simp
    then obtain y ys where "[1..<Suc k] = y # ys"
      by (cases "[1..<Suc k]") simp_all
    then show ?thesis by (simp add: get_frame_eq del: upt_Suc)
  qed
  show ?thesis
    unfolding r
  proof (intro conjI)
    show "frame_queue (cam ?s) = [1..<Suc k]" by simp
    show "delivered ?s = []" by simp
  qed (rule inner)
qed

theorem frames_queued_not_dropped_witness:
  "(5::nat) \<le> 10 \<and>
   frame_queue (cam (run (concat (replicate 5 capture_pass)) (hub_init 10))) = [1, 2, 3, 4, 5] \<and>
   delivered (run (concat (replicate 5 capture_pass)) (hub_init 10)) = []"
proof -
  have h: "(5::nat) \<le> 10" by simp
  have u: "[1..<Suc 5] = [1, 2, 3, 4, 5]" by code_simp
  from frames_queued_not_dropped [OF h] show ?thesis
    unfolding u by simp
qed

section \<open>Properties of the retention sweep\<close>

lemma dirs_differ: "VIDEO_STORAGE_DIR \<noteq> ANOMALY_STORAGE_DIR"
  by (simp add: VIDEO_STORAGE_DIR_def ANOMALY_STORAGE_DIR_def)

lemma remove_if_old_eq:
  "remove_if_old E cutoff ts p fs =
     (if (\<exists>t. file_time E ts = Inr t \<and> t < cutoff)
      then fs(fst p := removeAll (snd p) (fs (fst p))) else fs)"
  by (auto simp: remove_if_old_def os_remove_def split: sum.splits)


lemma manage_videos_other_dir:
  "d \<noteq> VIDEO_STORAGE_DIR \<Longrightarrow> manage_videos E cutoff listing fs d = fs d"
  unfolding manage_videos_def
  by (induction listing arbitrary: fs)
     (auto simp: video_step_def remove_if_old_eq os_path_join_def Let_def)



lemma manage_anomaly_age_in_window:
  assumes "\<forall>p \<in> set files. \<exists>t. file_time E (time_str p) = Inr t \<and> cutoff \<le> t"
  shows "manage_anomaly_age E cutoff files fs = fs"
  using assms unfolding manage_anomaly_age_def
  by (induction files arbitrary: fs)
     (auto simp: anomaly_step_def remove_if_old_eq time_str_def Let_def)

lemma length_extract_times: "length (extract_times E k files) = length files"
  by (induction files arbitrary: k) (auto split: option.splits)

lemma map_snd_zip_extract_times: "map snd (zip (extract_times E k files) files) = files"
  by (simp add: length_extract_times)

lemma set_sort_latest_first: "set (sort_latest_first E k files) = set files"
proof -
  have "set (sort_latest_first E k files) = snd ` set (zip (extract_times E k files) files)"
    unfolding sort_latest_first_def by simp
  also have "\<dots> = set (map snd (zip (extract_times E k files) files))" by simp
  finally show ?thesis unfolding map_snd_zip_extract_times .
qed

lemma length_sort_latest_first: "length (sort_latest_first E k files) = length files"
  unfolding sort_latest_first_def by (simp add: length_extract_times)

lemma remove_oldest_eq:
  assumes "files \<noteq> []"
  shows "remove_oldest (Suc i) files fs =
     (if snd (last files) \<in> set (fs (fst (last files)))
      then (if i = 0 then Inr (fs(fst (last files) := removeAll (snd (last files)) (fs (fst (last files)))))
            else Inl (FileNotFoundError, fs(fst (last files) := removeAll (snd (last files)) (fs (fst (last files))))))
      else Inl (FileNotFoundError, fs))"
  using assms by (cases i) (auto simp: os_remove_def)



lemma extract_times_all_parse:
  assumes "\<forall>p \<in> set files. strptime E (time_str p) \<noteq> None"
  shows "extract_times E k files = map (\<lambda>p. the (strptime E (time_str p))) files"
  using assms by (induction files arbitrary: k) auto

lemma sorted_hd_least:
  assumes "sorted (map f ys)" and "z \<in> set ys"
  shows "f (hd ys) \<le> f z"
  using assms by (cases ys) auto

lemma last_sort_latest_first_oldest:
  fixes E :: "('d::linorder) env"
  assumes "files \<noteq> []"
    and "\<forall>p \<in> set files. strptime E (time_str p) \<noteq> None"
    and "p \<in> set files"
  shows "the (strptime E (time_str (last (sort_latest_first E k files))))
           \<le> the (strptime E (time_str p))"
proof -
  let ?f = "\<lambda>p. the (strptime E (time_str p))"
  let ?zs = "map (\<lambda>p. (?f p, p)) files"
  let ?ys = "sort_key fst (rev ?zs)"
  have zs: "zip (extract_times E k files) files = ?zs"
    unfolding extract_times_all_parse [OF assms(2)] by (simp add: zip_map1 zip_same_conv_map)
  have "length ?ys = length files" by simp
  with assms(1) have ne: "?ys \<noteq> []" by (metis length_0_conv)
  have srt: "sorted (map fst ?ys)" by simp
  have set_ys: "set ?ys = set ?zs" by simp
  have fst_snd: "fst z = ?f (snd z)" if "z \<in> set ?ys" for z
    using that unfolding set_ys by auto
  have last_eq: "last (sort_latest_first E k files) = snd (hd ?ys)"
    unfolding sort_latest_first_def zs using ne by (simp add: last_map last_rev)
  have "(?f p, p) \<in> set ?ys" using assms(3) unfolding set_ys by auto
  from sorted_hd_least [OF srt this] have "fst (hd ?ys) \<le> ?f p" by simp
  moreover have "hd ?ys \<in> set ?ys" using ne by (rule hd_in_set)
  then have "fst (hd ?ys) = ?f (snd (hd ?ys))" by (rule fst_snd)
  ultimately show ?thesis unfolding last_eq by simp
qed

lemma list_anomaly_files_removeAll:
  assumes "fs' ANOMALY_STORAGE_DIR = removeAll name (fs ANOMALY_STORAGE_DIR)"
  shows "list_anomaly_files fs' = removeAll (ANOMALY_STORAGE_DIR, name) (list_anomaly_files fs)"
proof -
  have "map (Pair d) (filter P (removeAll name xs)) = removeAll (d, name) (map (Pair d) (filter P xs))"
    for d :: string and P xs
    by (induction xs) auto
  then show ?thesis
    unfolding list_anomaly_files_def os_listdir_def assms os_path_join_def [abs_def] by simp
qed

lemma distinct_list_anomaly_files:
  "distinct (os_listdir ANOMALY_STORAGE_DIR fs) \<Longrightarrow> distinct (list_anomaly_files fs)"
  unfolding list_anomaly_files_def
  by (simp add: distinct_map inj_on_def os_path_join_def)

lemma in_list_anomaly_files:
  "p \<in> set (list_anomaly_files fs) \<Longrightarrow>
     fst p = ANOMALY_STORAGE_DIR \<and> snd p \<in> set (fs ANOMALY_STORAGE_DIR)"
  unfolding list_anomaly_files_def os_listdir_def os_path_join_def by auto

lemma age_passes_in_window:
  fixes E :: "('d::linorder) env"
  assumes "\<forall>p \<in> set (list_anomaly_files fs).
             \<exists>t. file_time E (time_str p) = Inr t \<and> time_now E - MAX_VIDEO_DURATION cfg \<le> t"
  shows "age_passes cfg E fs ANOMALY_STORAGE_DIR = fs ANOMALY_STORAGE_DIR"
    and "list_anomaly_files (age_passes cfg E fs) = list_anomaly_files fs"
proof -
  let ?c = "time_now E - MAX_VIDEO_DURATION cfg"
  let ?fs1 = "manage_videos E ?c (os_listdir VIDEO_STORAGE_DIR fs) fs"
  have d: "?fs1 ANOMALY_STORAGE_DIR = fs ANOMALY_STORAGE_DIR"
    by (rule manage_videos_other_dir) (simp add: dirs_differ [symmetric])
  then have l: "list_anomaly_files ?fs1 = list_anomaly_files fs"
    by (simp add: list_anomaly_files_def os_listdir_def)
  have "manage_anomaly_age E ?c (sort_latest_first E 0 (list_anomaly_files ?fs1)) ?fs1 = ?fs1"
    by (rule manage_anomaly_age_in_window) (simp add: set_sort_latest_first l assms)
  then have a: "age_passes cfg E fs = ?fs1"
    by (simp add: age_passes_def Let_def)
  show "age_passes cfg E fs ANOMALY_STORAGE_DIR = fs ANOMALY_STORAGE_DIR"
    unfolding a by (rule d)
  show "list_anomaly_files (age_passes cfg E fs) = list_anomaly_files fs"
    unfolding a by (rule l)
qed


lemmas sweep_defs =
  manage_storage_def age_passes_def first_sort_fallbacks_def manage_videos_def os_listdir_def
  VIDEO_STORAGE_DIR_def ANOMALY_STORAGE_DIR_def list_anomaly_files_def is_anomaly_file_def
  startswith_def endswith_def os_path_join_def sort_latest_first_def time_str_def
  os_path_basename_def manage_anomaly_age_def anomaly_step_def video_step_def remove_if_old_def
  file_time_def trim_count_def fallbacks_def os_remove_def fs_after_def




section \<open>Claims about the retention sweep\<close>

text \<open>
  C2 (count-based retention) fails on the code when the surplus is two or more. For every
  snapshot directory (without duplicate names) whose snapshot files all parse and all lie
  within the age window, and which holds at least \<open>MAX_ANOMY_IMAGES + 2\<close> of them, the
  sweep raises \<^verbatim>\<open>FileNotFoundError\<close>: the count pass removes one file, the one ranked
  last, whose time stamp is the oldest, and its second pass names the same path again.
  Exactly one snapshot file is gone afterwards, not the whole surplus.
\<close>

theorem count_pass_stops_after_one_removal:
  fixes E :: "('d::linorder) env"
  assumes dist: "distinct (os_listdir ANOMALY_STORAGE_DIR fs)"
    and win: "\<forall>p \<in> set (list_anomaly_files fs).
             \<exists>t. file_time E (time_str p) = Inr t \<and> time_now E - MAX_VIDEO_DURATION cfg \<le> t"
    and many: "MAX_ANOMY_IMAGES cfg + 2 \<le> length (list_anomaly_files fs)"
  shows "\<exists>oldest fs'.
           manage_storage cfg E fs = Inl (FileNotFoundError, fs') \<and>
           oldest \<in> set (list_anomaly_files fs) \<and>
           (\<forall>p \<in> set (list_anomaly_files fs).
              the (strptime E (time_str oldest)) \<le> the (strptime E (time_str p))) \<and>
           list_anomaly_files fs' = removeAll oldest (list_anomaly_files fs) \<and>
           length (list_anomaly_files fs') = length (list_anomaly_files fs) - 1"
proof -
  let ?files = "list_anomaly_files fs"
  let ?fs2 = "age_passes cfg E fs"
  let ?k = "first_sort_fallbacks cfg E fs"
  let ?sorted = "sort_latest_first E ?k ?files"
  let ?old = "last ?sorted"
  let ?fs' = "?fs2(fst ?old := removeAll (snd ?old) (?fs2 (fst ?old)))"
  have ne: "?files \<noteq> []" using many by auto
  then have sne: "?sorted \<noteq> []"
    using length_sort_latest_first [of E ?k ?files] by (metis length_0_conv)
  then have "?old \<in> set ?sorted" by simp
  then have old_in: "?old \<in> set ?files" by (simp add: set_sort_latest_first)
  from in_list_anomaly_files [OF old_in] have
    old_dir: "fst ?old = ANOMALY_STORAGE_DIR" and old_name: "snd ?old \<in> set (fs ANOMALY_STORAGE_DIR)"
    by simp_all
  have old_pair: "(ANOMALY_STORAGE_DIR, snd ?old) = ?old"
    using old_dir by (metis prod.collapse)
  have present: "snd ?old \<in> set (?fs2 (fst ?old))"
    unfolding old_dir age_passes_in_window(1) [OF win] by (rule old_name)
  define i where "i = length ?files - MAX_ANOMY_IMAGES cfg - 2"
  have ex: "length ?files - MAX_ANOMY_IMAGES cfg = Suc (Suc i)"
    unfolding i_def using many by simp
  have gt: "MAX_ANOMY_IMAGES cfg < length ?files" using many by simp
  have ms: "manage_storage cfg E fs = remove_oldest (Suc (Suc i)) ?sorted ?fs2"
    unfolding manage_storage_def Let_def trim_count_def age_passes_in_window(2) [OF win]
    using gt ex by simp
  have res: "manage_storage cfg E fs = Inl (FileNotFoundError, ?fs')"
    unfolding ms remove_oldest_eq [OF sne] using present by simp
  have parse: "\<forall>p \<in> set ?files. strptime E (time_str p) \<noteq> None"
    using win by (auto simp: file_time_def split: option.splits)
  have least: "\<forall>p \<in> set ?files.
      the (strptime E (time_str ?old)) \<le> the (strptime E (time_str p))"
    using last_sort_latest_first_oldest [OF ne parse] by blast
  have "?fs' ANOMALY_STORAGE_DIR = removeAll (snd ?old) (fs ANOMALY_STORAGE_DIR)"
    unfolding old_dir by (simp add: age_passes_in_window(1) [OF win])
  from list_anomaly_files_removeAll [where fs' = ?fs' and fs = fs and name = "snd ?old", OF this]
  have rem: "list_anomaly_files ?fs' = removeAll ?old ?files"
    unfolding old_pair .
  have "distinct ?files" by (rule distinct_list_anomaly_files [OF dist])
  with old_in have "length (removeAll ?old ?files) = length ?files - 1"
    by (simp add: distinct_remove1_removeAll [symmetric] length_remove1)
  then have len: "length (list_anomaly_files ?fs') = length ?files - 1"
    unfolding rem .
  show ?thesis
    by (intro exI [of _ ?old] exI [of _ ?fs'] conjI) (rule res old_in least rem len)+
qed

theorem count_pass_stops_after_one_removal_witness:
  "distinct (os_listdir ANOMALY_STORAGE_DIR example_fs) \<and>
   MAX_ANOMY_IMAGES example_config + 2 \<le> length (list_anomaly_files example_fs) \<and>
   length (list_anomaly_files example_fs) = 4 \<and>
   (\<exists>fs'. manage_storage example_config example_env example_fs = Inl (FileNotFoundError, fs') \<and>
          length (list_anomaly_files fs') = 3)"
proof -
  have files: "list_anomaly_files example_fs =
      [(''anomalies'', ''anomaly_20250101_000003.jpg''), (''anomalies'', ''anomaly_20250101_000001.jpg''),
       (''anomalies'', ''anomaly_20250101_000004.jpg''), (''anomalies'', ''anomaly_20250101_000002.jpg'')]"
    by (simp add: list_anomaly_files_def example_fs_def os_listdir_def ANOMALY_STORAGE_DIR_def
        is_anomaly_file_def startswith_def endswith_def os_path_join_def)
  have d: "distinct (os_listdir ANOMALY_STORAGE_DIR example_fs)"
    by (simp add: example_fs_def os_listdir_def ANOMALY_STORAGE_DIR_def)
  have w: "\<forall>p \<in> set (list_anomaly_files example_fs).
             \<exists>t. file_time example_env (time_str p) = Inr t \<and>
                 time_now example_env - MAX_VIDEO_DURATION example_config \<le> t"
    unfolding files
    by (simp add: file_time_def time_str_def os_path_basename_def example_env_def
        example_config_def app_config_def)
  have m: "MAX_ANOMY_IMAGES example_config + 2 \<le> length (list_anomaly_files example_fs)"
    unfolding files by (simp add: example_config_def app_config_def)
  from count_pass_stops_after_one_removal [OF d w m] d m show ?thesis
    unfolding files by auto
qed

text \<open>
  C6 (benign-race deletion) fails in the count pass. Whenever the count pass runs on a
  list of more than \<open>MAX_ANOMY_IMAGES\<close> snapshot paths and the file it ranks last is no
  longer in the directory (another sweep removed it after the listing, or an earlier pass
  of the same loop did), \<^verbatim>\<open>os.remove\<close> raises \<^verbatim>\<open>FileNotFoundError\<close> and the sweep
  ends with that error, deleting nothing. The age passes, on the same missing file, go on
  without an error and leave the file system as it is.
\<close>

theorem count_pass_raises_on_vanished_file:
  fixes E :: "('d::linorder) env"
  assumes "MAX_ANOMY_IMAGES cfg < length anomaly_files"
    and "snd (last (sort_latest_first E k anomaly_files))
           \<notin> set (fs (fst (last (sort_latest_first E k anomaly_files))))"
  shows "trim_count cfg E k anomaly_files fs = Inl (FileNotFoundError, fs) \<and>
         remove_if_old E cutoff ts (last (sort_latest_first E k anomaly_files)) fs = fs"
proof -
  let ?sorted = "sort_latest_first E k anomaly_files"
  from assms(1) have "anomaly_files \<noteq> []" by auto
  then have sne: "?sorted \<noteq> []"
    using length_sort_latest_first [of E k anomaly_files] by (metis length_0_conv)
  define i where "i = length anomaly_files - MAX_ANOMY_IMAGES cfg - 1"
  have ex: "length anomaly_files - MAX_ANOMY_IMAGES cfg = Suc i"
    unfolding i_def using assms(1) by simp
  have "trim_count cfg E k anomaly_files fs = remove_oldest (Suc i) ?sorted fs"
    unfolding trim_count_def Let_def using assms(1) ex by simp
  also have "\<dots> = Inl (FileNotFoundError, fs)"
    unfolding remove_oldest_eq [OF sne] using assms(2) by simp
  finally have a: "trim_count cfg E k anomaly_files fs = Inl (FileNotFoundError, fs)" .
  have b: "remove_if_old E cutoff ts (last ?sorted) fs = fs"
    using assms(2) by (simp add: remove_if_old_eq fun_upd_idem)
  from a b show ?thesis by simp
qed

theorem count_pass_raises_on_vanished_file_witness:
  "MAX_ANOMY_IMAGES example_config < length (list_anomaly_files example_fs) \<and>
   last (sort_latest_first example_env 0 (list_anomaly_files example_fs)) =
     (''anomalies'', ''anomaly_20250101_000001.jpg'') \<and>
   ''anomaly_20250101_000001.jpg'' \<notin> set (example_vanished_fs ''anomalies'') \<and>
   trim_count example_config example_env 0 (list_anomaly_files example_fs) example_vanished_fs =
     Inl (FileNotFoundError, example_vanished_fs)"
proof -
  have l: "last (sort_latest_first example_env 0 (list_anomaly_files example_fs)) =
     (''anomalies'', ''anomaly_20250101_000001.jpg'')"
    by (simp add: sweep_defs example_fs_def example_env_def)
  have m: "MAX_ANOMY_IMAGES example_config < length (list_anomaly_files example_fs)"
    by (simp add: sweep_defs example_fs_def example_config_def app_config_def)
  have v: "snd (last (sort_latest_first example_env 0 (list_anomaly_files example_fs)))
           \<notin> set (example_vanished_fs (fst (last (sort_latest_first example_env 0 (list_anomaly_files example_fs)))))"
    unfolding l by (simp add: example_vanished_fs_def)
  from count_pass_raises_on_vanished_file
         [where cfg = example_config and E = example_env and k = 0
            and anomaly_files = "list_anomaly_files example_fs" and fs = example_vanished_fs,
          OF m v] l m v
  show ?thesis
    by simp
qed




section \<open>Claims about the anomalies endpoint\<close>

lemma py_slice_page:
  assumes "0 \<le> start" and "0 \<le> n"
  shows "py_slice xs start (start + n) = take (nat n) (drop (nat start) xs)"
proof (cases "int (length xs) \<le> start")
  case True
  with assms show ?thesis by (simp add: py_slice_def Let_def min_def)
next
  case False
  show ?thesis
  proof (cases "start + n \<le> int (length xs)")
    case True
    with False assms show ?thesis by (simp add: py_slice_def Let_def min_def)
  next
    case over: False
    with False assms have "length (drop (nat start) xs) \<le> nat n" by simp
    then have "take (nat n) (drop (nat start) xs) = drop (nat start) xs" by (rule take_all)
    moreover from over False assms
    have "py_slice xs start (start + n) =
            take (nat (int (length xs) - start)) (drop (nat start) xs)"
      by (simp add: py_slice_def Let_def min_def)
    moreover from False assms
    have "length (drop (nat start) xs) \<le> nat (int (length xs) - start)" by simp
    then have "take (nat (int (length xs) - start)) (drop (nat start) xs) = drop (nat start) xs"
      by (rule take_all)
    ultimately show ?thesis by simp
  qed
qed

lemma take_drop_nths:
  assumes "m + n \<le> length xs"
  shows "take n (drop m xs) = map (\<lambda>i. xs ! i) [m..<m + n]"
  using assms by (auto intro!: nth_equalityI)

text \<open>
  C8 (pagination). The list the endpoint slices is the snapshot names of the directory in
  descending order. For every page \<open>P \<ge> 1\<close> and size \<open>N \<ge> 0\<close> the answer is the
  slice of that list that starts after its first \<open>(P - 1) * N\<close> names and holds at most
  \<open>N\<close> names, that is items \<open>(P - 1) * N + 1\<close> to \<open>P * N\<close>; a page beyond the end of
  the list gives the empty list. With 25 names, page 2 of size 10 is the items 11 to 20
  (indices 10 to 19) and page 4 of size 10 is empty.
\<close>

theorem get_anomalies_page:
  assumes "1 \<le> page" and "0 \<le> per_page"
  shows "sorted (rev (anomaly_files_latest_first fs)) \<and>
         set (anomaly_files_latest_first fs) =
           {f \<in> set (os_listdir ANOMALY_STORAGE_DIR fs). is_anomaly_file f} \<and>
         get_anomalies page per_page fs =
           map (\<lambda>filename. ''/anomalies/'' @ filename)
             (take (nat per_page)
                (drop (nat ((page - 1) * per_page)) (anomaly_files_latest_first fs))) \<and>
         (int (length (anomaly_files_latest_first fs)) \<le> (page - 1) * per_page
            \<longrightarrow> get_anomalies page per_page fs = []) \<and>
         (length (anomaly_files_latest_first fs) = 25
            \<longrightarrow> get_anomalies 2 10 fs =
                  map (\<lambda>i. ''/anomalies/'' @ anomaly_files_latest_first fs ! i) [10..<20] \<and>
                get_anomalies 4 10 fs = [])"
proof -
  let ?xs = "anomaly_files_latest_first fs"
  have page: "get_anomalies p n fs =
      map (\<lambda>filename. ''/anomalies/'' @ filename) (take (nat n) (drop (nat ((p - 1) * n)) ?xs))"
    if "1 \<le> p" and "0 \<le> n" for p n
  proof -
    from that have "0 \<le> (p - 1) * n" by simp
    then show ?thesis
      by (simp add: get_anomalies_def Let_def py_slice_page [OF _ that(2)])
  qed
  have s: "sorted (rev ?xs)" by (simp add: anomaly_files_latest_first_def)
  have m: "set ?xs = {f \<in> set (os_listdir ANOMALY_STORAGE_DIR fs). is_anomaly_file f}"
    by (auto simp: anomaly_files_latest_first_def)
  have e: "get_anomalies page per_page fs = []"
    if "int (length ?xs) \<le> (page - 1) * per_page"
    using that by (simp add: page [OF assms])
  have x: "get_anomalies 2 10 fs = map (\<lambda>i. ''/anomalies/'' @ ?xs ! i) [10..<20] \<and>
           get_anomalies 4 10 fs = []"
    if l: "length ?xs = 25"
  proof -
    have "take 10 (drop 10 ?xs) = map (\<lambda>i. ?xs ! i) [10..<10 + 10]"
      by (rule take_drop_nths) (simp add: l)
    then have "get_anomalies 2 10 fs = map (\<lambda>i. ''/anomalies/'' @ ?xs ! i) [10..<20]"
      by (simp add: page)
    moreover have "get_anomalies 4 10 fs = []"
      by (simp add: page l)
    ultimately show ?thesis by simp
  qed
  from s m page [OF assms] e x show ?thesis by blast
qed

theorem get_anomalies_page_witness:
  "(1::int) \<le> 2 \<and> (0::int) \<le> 10 \<and>
   length (anomaly_files_latest_first example_fs25) = 25 \<and>
   int (length (anomaly_files_latest_first example_fs25)) \<le> (4 - 1) * 10 \<and>
   get_anomalies 2 10 example_fs25 =
     [''/anomalies/anomaly_20250101_000015.jpg'', ''/anomalies/anomaly_20250101_000014.jpg'',
      ''/anomalies/anomaly_20250101_000013.jpg'', ''/anomalies/anomaly_20250101_000012.jpg'',
      ''/anomalies/anomaly_20250101_000011.jpg'', ''/anomalies/anomaly_20250101_000010.jpg'',
      ''/anomalies/anomaly_20250101_000009.jpg'', ''/anomalies/anomaly_20250101_000008.jpg'',
      ''/anomalies/anomaly_20250101_000007.jpg'', ''/anomalies/anomaly_20250101_000006.jpg''] \<and>
   get_anomalies 4 10 example_fs25 = []"
proof -
  have h1: "(1::int) \<le> 2" and h0: "(0::int) \<le> 10" by simp_all
  have srt: "anomaly_files_latest_first example_fs25 =
     [''anomaly_20250101_000025.jpg'', ''anomaly_20250101_000024.jpg'',
      ''anomaly_20250101_000023.jpg'', ''anomaly_20250101_000022.jpg'',
      ''anomaly_20250101_000021.jpg'', ''anomaly_20250101_000020.jpg'',
      ''anomaly_20250101_000019.jpg'', ''anomaly_20250101_000018.jpg'',
      ''anomaly_20250101_000017.jpg'', ''anomaly_20250101_000016.jpg'',
      ''anomaly_20250101_000015.jpg'', ''anomaly_20250101_000014.jpg'',
      ''anomaly_20250101_000013.jpg'', ''anomaly_20250101_000012.jpg'',
      ''anomaly_20250101_000011.jpg'', ''anomaly_20250101_000010.jpg'',
      ''anomaly_20250101_000009.jpg'', ''anomaly_20250101_000008.jpg'',
      ''anomaly_20250101_000007.jpg'', ''anomaly_20250101_000006.jpg'',
      ''anomaly_20250101_000005.jpg'', ''anomaly_20250101_000004.jpg'',
      ''anomaly_20250101_000003.jpg'', ''anomaly_20250101_000002.jpg'',
      ''anomaly_20250101_000001.jpg'']"
    by (simp add: anomaly_files_latest_first_def example_fs25_def os_listdir_def
        ANOMALY_STORAGE_DIR_def is_anomaly_file_def startswith_def endswith_def)
  have len: "length (anomaly_files_latest_first example_fs25) = 25"
    unfolding srt by simp
  have u: "[10..<20] = [10, 11, 12, 13, 14, 15, 16, 17, 18, 19 :: nat]" by code_simp
  from get_anomalies_page [OF h1 h0, of example_fs25] len
  have "get_anomalies 2 10 example_fs25 =
          map (\<lambda>i. ''/anomalies/'' @ anomaly_files_latest_first example_fs25 ! i) [10..<20]"
    and "get_anomalies 4 10 example_fs25 = []"
    by blast+
  then show ?thesis unfolding u srt by simp
qed

section \<open>Claims about the detector\<close>

lemma detect_cycle_flagged:
  assumes "det_frame inp = Some x" and "anomaly_detected cfg (det_areas inp)"
  shows "fst (detect_cycle cfg inp st) =
     (if ANOMALY_COOLDOWN cfg \<le> det_now inp - last_capture_time st
      then st\<lparr>snapshots := snapshots st @
                  [(os_path_join ANOMALY_STORAGE_DIR (''anomaly_'' @ det_timestamp inp @ ''.jpg''), x)],
              last_capture_time := det_now inp\<rparr>
      else st)"
  using assms by (simp add: detect_cycle_def Let_def)

lemma detect_cycle_other:
  assumes "det_frame inp = None \<or> \<not> anomaly_detected cfg (det_areas inp)"
  shows "fst (detect_cycle cfg inp st) = st"
  using assms by (auto simp: detect_cycle_def Let_def split: option.splits)

lemma detect_run_gate:
  "snapshots (detect_run cfg inps st) =
     snapshots st @
       map snd (cooldown_gate (ANOMALY_COOLDOWN cfg) (last_capture_time st) (detections cfg inps)) \<and>
   last_capture_time (detect_run cfg inps st) =
     (if cooldown_gate (ANOMALY_COOLDOWN cfg) (last_capture_time st) (detections cfg inps) = []
      then last_capture_time st
      else fst (last (cooldown_gate (ANOMALY_COOLDOWN cfg) (last_capture_time st)
                        (detections cfg inps))))"
proof (induction inps arbitrary: st)
  case Nil
  show ?case by simp
next
  case (Cons inp inps)
  show ?case
  proof (cases "det_frame inp = None \<or> \<not> anomaly_detected cfg (det_areas inp)")
    case True
    then have d: "detections cfg (inp # inps) = detections cfg inps"
      by (auto split: option.splits)
    show ?thesis
      unfolding d using Cons.IH [of st] by (simp add: detect_cycle_other [OF True])
  next
    case False
    then obtain x where f: "det_frame inp = Some x" and a: "anomaly_detected cfg (det_areas inp)"
      by auto
    let ?p = "os_path_join ANOMALY_STORAGE_DIR (''anomaly_'' @ det_timestamp inp @ ''.jpg'')"
    have d: "detections cfg (inp # inps) = (det_now inp, ?p, x) # detections cfg inps"
      using f a by simp
    show ?thesis
    proof (cases "ANOMALY_COOLDOWN cfg \<le> det_now inp - last_capture_time st")
      case True
      let ?st' = "st\<lparr>snapshots := snapshots st @ [(?p, x)], last_capture_time := det_now inp\<rparr>"
      have c: "fst (detect_cycle cfg inp st) = ?st'"
        using True by (simp add: detect_cycle_flagged [OF f a])
      show ?thesis
        unfolding d using Cons.IH [of ?st'] True by (simp add: c)
    next
      case False
      have c: "fst (detect_cycle cfg inp st) = st"
        using False by (simp add: detect_cycle_flagged [OF f a])
      show ?thesis
        unfolding d using Cons.IH [of st] False by (simp add: c)
    qed
  qed
qed

text \<open>
  C3, as the specification states it, fails at its own instance: \<^verbatim>\<open>last_capture_time\<close>
  starts at 0, so with a cooldown of 5 seconds and detections at the clock readings 0, 1
  and 6 the first two are suppressed and one snapshot is written, that of the detection
  at 6.
\<close>

theorem cooldown_from_zero_counterexample:
  "snapshots (detect_run app_config
       [flagged_pass 0 ''19700101_000000'' (0::nat),
        flagged_pass 1 ''19700101_000001'' 1,
        flagged_pass 6 ''19700101_000006'' 2]
       detect_anomalies_init) =
     [((''anomalies'', ''anomaly_19700101_000006.jpg''), 2)]"
  by (simp add: detect_cycle_def flagged_pass_def detect_anomalies_init_def app_config_def
      os_path_join_def ANOMALY_STORAGE_DIR_def Let_def)

text \<open>
  C3, amended (cooldown gating, the last-capture time starting at 0). For every run of
  the detector from its initial state, whatever passes it is made of, the snapshots
  written are exactly those the cooldown gate lets through, the gate starting with the
  last-capture time 0: a detection (a pass that polled a frame and flagged an anomaly) is
  written if and only if its clock reading is at least \<^verbatim>\<open>ANOMALY_COOLDOWN\<close> after the
  reading of the last written detection, or after 0 when none was written yet. The
  \<^verbatim>\<open>last_capture_time\<close> of the detector is the reading of the last written detection:
  suppressed detections, passes without an anomaly and passes without a frame leave it
  unchanged. With the configured cooldown of 5 seconds and detections at the readings
  \<open>T\<close>, \<open>T + 1\<close> and \<open>T + 6\<close>, where \<open>T\<close> is at least the cooldown, exactly two
  snapshots are written, those of the first and of the third detection.
\<close>

theorem cooldown_gating:
  assumes "ANOMALY_COOLDOWN app_config \<le> T"
    and "det_frame i0 = Some x0" and "anomaly_detected app_config (det_areas i0)"
    and "det_frame i1 = Some x1" and "anomaly_detected app_config (det_areas i1)"
    and "det_frame i2 = Some x2" and "anomaly_detected app_config (det_areas i2)"
    and "det_now i0 = T" and "det_now i1 = T + 1" and "det_now i2 = T + 6"
  shows "snapshots (detect_run cfg inps detect_anomalies_init) =
           map snd (cooldown_gate (ANOMALY_COOLDOWN cfg) 0 (detections cfg inps)) \<and>
         last_capture_time (detect_run cfg inps detect_anomalies_init) =
           (if cooldown_gate (ANOMALY_COOLDOWN cfg) 0 (detections cfg inps) = [] then 0
            else fst (last (cooldown_gate (ANOMALY_COOLDOWN cfg) 0 (detections cfg inps)))) \<and>
         snapshots (detect_run app_config [i0, i1, i2] detect_anomalies_init) =
           [(os_path_join ANOMALY_STORAGE_DIR (''anomaly_'' @ det_timestamp i0 @ ''.jpg''), x0),
            (os_path_join ANOMALY_STORAGE_DIR (''anomaly_'' @ det_timestamp i2 @ ''.jpg''), x2)] \<and>
         last_capture_time (detect_run app_config [i0, i1, i2] detect_anomalies_init) = T + 6"
proof -
  have c: "ANOMALY_COOLDOWN app_config = 5" by (simp add: app_config_def)
  have g: "snapshots (detect_run cfg inps detect_anomalies_init) =
           map snd (cooldown_gate (ANOMALY_COOLDOWN cfg) 0 (detections cfg inps)) \<and>
         last_capture_time (detect_run cfg inps detect_anomalies_init) =
           (if cooldown_gate (ANOMALY_COOLDOWN cfg) 0 (detections cfg inps) = [] then 0
            else fst (last (cooldown_gate (ANOMALY_COOLDOWN cfg) 0 (detections cfg inps))))"
    using detect_run_gate [of cfg inps detect_anomalies_init]
    by (simp add: detect_anomalies_init_def)
  have d: "detections app_config [i0, i1, i2] =
      [(T, os_path_join ANOMALY_STORAGE_DIR (''anomaly_'' @ det_timestamp i0 @ ''.jpg''), x0),
       (T + 1, os_path_join ANOMALY_STORAGE_DIR (''anomaly_'' @ det_timestamp i1 @ ''.jpg''), x1),
       (T + 6, os_path_join ANOMALY_STORAGE_DIR (''anomaly_'' @ det_timestamp i2 @ ''.jpg''), x2)]"
    using assms(2-10) by simp
  have e: "snapshots (detect_run app_config [i0, i1, i2] detect_anomalies_init) =
           [(os_path_join ANOMALY_STORAGE_DIR (''anomaly_'' @ det_timestamp i0 @ ''.jpg''), x0),
            (os_path_join ANOMALY_STORAGE_DIR (''anomaly_'' @ det_timestamp i2 @ ''.jpg''), x2)] \<and>
         last_capture_time (detect_run app_config [i0, i1, i2] detect_anomalies_init) = T + 6"
    using detect_run_gate [of app_config "[i0, i1, i2]" detect_anomalies_init] assms(1)
    unfolding d by (simp add: detect_anomalies_init_def c)
  from g e show ?thesis by simp
qed

theorem cooldown_gating_witness:
  "ANOMALY_COOLDOWN app_config \<le> 1700000000 \<and>
   anomaly_detected app_config (det_areas (flagged_pass 1700000000 ''20231114_221320'' (0::nat))) \<and>
   snapshots (detect_run app_config
       [flagged_pass 1700000000 ''20231114_221320'' (0::nat),
        flagged_pass (1700000000 + 1) ''20231114_221321'' 1,
        flagged_pass (1700000000 + 6) ''20231114_221326'' 2]
       detect_anomalies_init) =
     [((''anomalies'', ''anomaly_20231114_221320.jpg''), 0),
      ((''anomalies'', ''anomaly_20231114_221326.jpg''), 2)]"
proof -
  have t: "ANOMALY_COOLDOWN app_config \<le> 1700000000"
    by (simp add: app_config_def)
  have a: "anomaly_detected app_config (det_areas (flagged_pass t s (x::nat)))" for t s x
    by (simp add: flagged_pass_def app_config_def)
  have f: "det_frame (flagged_pass t s (x::nat)) = Some x" for t s x
    by (simp add: flagged_pass_def)
  have n: "det_now (flagged_pass t s (x::nat)) = t" for t s x
    by (simp add: flagged_pass_def)
  from cooldown_gating [OF t f a f a f a n n n]
  have "snapshots (detect_run app_config
       [flagged_pass 1700000000 ''20231114_221320'' (0::nat),
        flagged_pass (1700000000 + 1) ''20231114_221321'' 1,
        flagged_pass (1700000000 + 6) ''20231114_221326'' 2]
       detect_anomalies_init) =
     [(os_path_join ANOMALY_STORAGE_DIR
         (''anomaly_'' @ det_timestamp (flagged_pass 1700000000 ''20231114_221320'' (0::nat)) @ ''.jpg''), 0),
      (os_path_join ANOMALY_STORAGE_DIR
         (''anomaly_'' @ det_timestamp (flagged_pass (1700000000 + 6) ''20231114_221326'' (2::nat)) @ ''.jpg''), 2)]"
    by blast
  then show ?thesis
    using t a by (simp add: flagged_pass_def os_path_join_def ANOMALY_STORAGE_DIR_def)
qed

section \<open>Claims about the recorder\<close>

text \<open>
  C5, as the specification states it, fails. A chunk is opened at time 1000 with frame 1
  and the chunk lasts 1800 seconds; frame 2 follows; the pass that polls frame 3 finds the
  rotation due (its clock reading is 2800). After that pass the first file holds frames 1,
  2 and 3, the writer is released and no new file exists. The next pass opens the new file
  and writes its own frame 4 there: frame 3 is in the chunk that was closed, not in the
  new one.
\<close>

theorem rotation_frame_counterexample:
  "written (record_run app_config
              [frame_pass 1000 ''20250101_000000'' (1::nat), frame_pass 2000 ''20250101_001640'' 2,
               frame_pass 2800 ''20250101_003000'' 3]
              (record_video_init app_config 990))
     (''videos'', ''video_20250101_000000.mp4'') = Some [1, 2, 3] \<and>
   video_writer (record_run app_config
              [frame_pass 1000 ''20250101_000000'' (1::nat), frame_pass 2000 ''20250101_001640'' 2,
               frame_pass 2800 ''20250101_003000'' 3]
              (record_video_init app_config 990)) = None \<and>
   written (record_run app_config
              [frame_pass 1000 ''20250101_000000'' (1::nat), frame_pass 2000 ''20250101_001640'' 2,
               frame_pass 2800 ''20250101_003000'' 3]
              (record_video_init app_config 990))
     (''videos'', ''video_20250101_003000.mp4'') = None \<and>
   written (record_run app_config
              [frame_pass 1000 ''20250101_000000'' (1::nat), frame_pass 2000 ''20250101_001640'' 2,
               frame_pass 2800 ''20250101_003000'' 3, frame_pass 2801 ''20250101_003001'' 4]
              (record_video_init app_config 990))
     (''videos'', ''video_20250101_003001.mp4'') = Some [4] \<and>
   written (record_run app_config
              [frame_pass 1000 ''20250101_000000'' (1::nat), frame_pass 2000 ''20250101_001640'' 2,
               frame_pass 2800 ''20250101_003000'' 3, frame_pass 2801 ''20250101_003001'' 4]
              (record_video_init app_config 990))
     (''videos'', ''video_20250101_000000.mp4'') = Some [1, 2, 3]"
  by (simp add: record_cycle_def writer_write_def frame_pass_def record_video_init_def
      app_config_def os_path_join_def VIDEO_STORAGE_DIR_def Let_def)

text \<open>
  C5, amended (the frame of the rotation pass closes the old chunk). For every pass of
  the recorder that polls a frame while a chunk is open and finds the rotation due, the
  frame is not discarded: it is written as the last frame of the open chunk, no other file
  changes, and the writer is released. The next pass that polls a frame opens the new
  chunk, named by its own time stamp, and writes its own frame as the first frame there.
\<close>

theorem rotation_frame_closes_old_chunk:
  assumes "video_writer st = Some w" and "rec_frame inp = Some x"
    and "end_time st \<le> rec_time_check inp"
    and "rec_frame inp' = Some x'"
  shows "video_writer (fst (record_cycle cfg inp st)) = None \<and>
         written (fst (record_cycle cfg inp st)) w =
           Some ((case written st w of None \<Rightarrow> [] | Some xs \<Rightarrow> xs) @ [x]) \<and>
         (\<forall>p. p \<noteq> w \<longrightarrow> written (fst (record_cycle cfg inp st)) p = written st p) \<and>
         written (fst (record_cycle cfg inp' (fst (record_cycle cfg inp st))))
           (os_path_join VIDEO_STORAGE_DIR (''video_'' @ rec_timestamp inp' @ ''.mp4'')) = Some [x'] \<and>
         video_writer (fst (record_cycle cfg inp' (fst (record_cycle cfg inp st)))) =
           (if rec_time_open inp' + VIDEO_DURATION cfg \<le> rec_time_check inp' then None
            else Some (os_path_join VIDEO_STORAGE_DIR (''video_'' @ rec_timestamp inp' @ ''.mp4'')))"
proof -
  let ?st' = "fst (record_cycle cfg inp st)"
  have st': "?st' = st\<lparr>written := (written st)(w \<mapsto> (case written st w of None \<Rightarrow> [] | Some xs \<Rightarrow> xs) @ [x]),
                       video_writer := None\<rparr>"
    using assms(1-3) by (simp add: record_cycle_def writer_write_def Let_def split: option.splits)
  have a: "video_writer ?st' = None" by (simp add: st')
  have b: "written ?st' w = Some ((case written st w of None \<Rightarrow> [] | Some xs \<Rightarrow> xs) @ [x])"
    by (simp add: st')
  have c: "\<forall>p. p \<noteq> w \<longrightarrow> written ?st' p = written st p" by (simp add: st')
  have d: "written (fst (record_cycle cfg inp' ?st'))
           (os_path_join VIDEO_STORAGE_DIR (''video_'' @ rec_timestamp inp' @ ''.mp4'')) = Some [x']"
    using assms(4) a by (simp add: record_cycle_def writer_write_def Let_def)
  have e: "video_writer (fst (record_cycle cfg inp' ?st')) =
           (if rec_time_open inp' + VIDEO_DURATION cfg \<le> rec_time_check inp' then None
            else Some (os_path_join VIDEO_STORAGE_DIR (''video_'' @ rec_timestamp inp' @ ''.mp4'')))"
    using assms(4) a by (simp add: record_cycle_def writer_write_def Let_def)
  from a b c d e show ?thesis by blast
qed

theorem rotation_frame_closes_old_chunk_witness:
  "video_writer (record_run app_config
       [frame_pass 1000 ''20250101_000000'' (1::nat), frame_pass 2000 ''20250101_001640'' 2]
       (record_video_init app_config 990)) = Some (''videos'', ''video_20250101_000000.mp4'') \<and>
   end_time (record_run app_config
       [frame_pass 1000 ''20250101_000000'' (1::nat), frame_pass 2000 ''20250101_001640'' 2]
       (record_video_init app_config 990)) \<le> rec_time_check (frame_pass 2800 ''20250101_003000'' (3::nat)) \<and>
   written (fst (record_cycle app_config (frame_pass 2800 ''20250101_003000'' 3)
      (record_run app_config
       [frame_pass 1000 ''20250101_000000'' (1::nat), frame_pass 2000 ''20250101_001640'' 2]
       (record_video_init app_config 990)))) (''videos'', ''video_20250101_000000.mp4'') = Some [1, 2, 3] \<and>
   written (fst (record_cycle app_config (frame_pass 2801 ''20250101_003001'' 4)
     (fst (record_cycle app_config (frame_pass 2800 ''20250101_003000'' 3)
      (record_run app_config
       [frame_pass 1000 ''20250101_000000'' (1::nat), frame_pass 2000 ''20250101_001640'' 2]
       (record_video_init app_config 990))))))
     (''videos'', ''video_20250101_003001.mp4'') = Some [4]"
proof -
  let ?st = "record_run app_config
       [frame_pass 1000 ''20250101_000000'' (1::nat), frame_pass 2000 ''20250101_001640'' 2]
       (record_video_init app_config 990)"
  let ?w = "(''videos'', ''video_20250101_000000.mp4'')"
  have w: "video_writer ?st = Some ?w"
    by (simp add: record_cycle_def writer_write_def frame_pass_def record_video_init_def
        app_config_def os_path_join_def VIDEO_STORAGE_DIR_def Let_def)
  have old: "written ?st ?w = Some [1, 2]"
    by (simp add: record_cycle_def writer_write_def frame_pass_def record_video_init_def
        app_config_def os_path_join_def VIDEO_STORAGE_DIR_def Let_def)
  have t: "end_time ?st \<le> rec_time_check (frame_pass 2800 ''20250101_003000'' (3::nat))"
    by (simp add: record_cycle_def writer_write_def frame_pass_def record_video_init_def
        app_config_def os_path_join_def VIDEO_STORAGE_DIR_def Let_def)
  have f3: "rec_frame (frame_pass 2800 ''20250101_003000'' (3::nat)) = Some 3"
    and f4: "rec_frame (frame_pass 2801 ''20250101_003001'' (4::nat)) = Some 4"
    by (simp_all add: frame_pass_def)
  have n: "os_path_join VIDEO_STORAGE_DIR
             (''video_'' @ rec_timestamp (frame_pass 2801 ''20250101_003001'' (4::nat)) @ ''.mp4'') =
           (''videos'', ''video_20250101_003001.mp4'')"
    by (simp add: frame_pass_def os_path_join_def VIDEO_STORAGE_DIR_def)
  from rotation_frame_closes_old_chunk [OF w f3 t f4, where cfg = app_config]
  show ?thesis
    unfolding old n using w t by simp
qed

end
